theory Spec2Isabelle
  imports Main "HOL-Library.Word" "HOL-Library.Multiset" "HOL-Library.AList"
begin

section \<open>Bloom shipper: data model\<close>

text \<open>
  The shipper of package \<open>bloomshipper\<close> resolves the bloom blocks of a tenant for a time
  window and a list of fingerprint ranges (\<open>GetBlockRefs\<close>, \<open>getActiveBlockRefs\<close>,
  \<open>findBlocks\<close>, \<open>isOutsideRange\<close>) and hands downloaded blocks to a callback (\<open>Fetch\<close>,
  \<open>runCallback\<close>).

  Fingerprints are \<open>uint64\<close>, modelled as 64-bit words (\<open><\<close> on words is the unsigned
  order). Timestamps are \<open>model.Time\<close>, a signed 64-bit count of milliseconds; the code only
  compares them, and the order of signed 64-bit values is the order of the integers they
  denote, so they are modelled as \<open>int\<close>.
\<close>

type_synonym uint64 = "64 word"

text \<open>\<open>type fpRange [2]uint64\<close> with its accessors \<open>minFp\<close> (index 0) and \<open>maxFp\<close> (index 1).\<close>

type_synonym fpRange = "uint64 \<times> uint64"

definition minFp :: "fpRange \<Rightarrow> uint64" where
  "minFp r = fst r"

definition maxFp :: "fpRange \<Rightarrow> uint64" where
  "maxFp r = snd r"

text \<open>
  Modelled from the spec: the declarations of \<open>BlockRef\<close> and \<open>Meta\<close> are not among the
  sources. The spec gives \<open>BlockRef\<close> as \<open>{BlockPath, MinFingerprint, MaxFingerprint: uint64,
  StartTimestamp, EndTimestamp: timestamp}\<close> and \<open>Meta\<close> as \<open>{Blocks, Tombstones: sequence of
  BlockRef}\<close>; these are the fields the code reads.
\<close>

record BlockRef =
  BlockPath :: string
  MinFingerprint :: uint64
  MaxFingerprint :: uint64
  StartTimestamp :: int
  EndTimestamp :: int

record Meta =
  Blocks :: "BlockRef list"
  Tombstones :: "BlockRef list"


section \<open>Range arithmetic and the range filter\<close>

text \<open>
  \<open>getFirstLast\<close> is generic in Go and returns the zero value of the element type for an
  empty slice. HOL has no zero value for an arbitrary type, so the zero value is an
  argument; for \<open>fpRange\<close> it is \<open>(0, 0)\<close>.
\<close>

definition getFirstLast :: "'a \<Rightarrow> 'a list \<Rightarrow> 'a \<times> 'a" where
  "getFirstLast zero s =
     (if length s = 0 then (zero, zero) else (s ! 0, s ! (length s - 1)))"

definition zeroFpRange :: fpRange where
  "zeroFpRange = (0, 0)"

text \<open>
  The loop of \<open>isOutsideRange\<close>: \<open>prev\<close> is the cursor, the list is what is left of
  \<open>fingerprints\<close> from index \<open>i\<close> on.
\<close>

fun gapScan :: "BlockRef \<Rightarrow> fpRange \<Rightarrow> fpRange list \<Rightarrow> bool" where
  "gapScan b prev [] = False"
| "gapScan b prev (fpr # rest) =
     (if MinFingerprint b > maxFp prev \<and> MaxFingerprint b < minFp fpr then True
      else gapScan b fpr rest)"

definition isOutsideRange :: "BlockRef \<Rightarrow> int \<Rightarrow> int \<Rightarrow> fpRange list \<Rightarrow> bool" where
  "isOutsideRange b startTimestamp endTimestamp fingerprints =
     (if EndTimestamp b < startTimestamp \<or> StartTimestamp b > endTimestamp then True
      else
        (case getFirstLast zeroFpRange fingerprints of (minFpRange, maxFpRange) \<Rightarrow>
           if MaxFingerprint b < minFp minFpRange \<or> MinFingerprint b > maxFp maxFpRange
           then True
           else gapScan b (0, 0) fingerprints))"

text \<open>
  The three conditions in the words of the specification, to be compared with the code.
  The overall bound of a range list is the first range's minimum and the last range's
  maximum, the zero range standing in when the list is empty.
\<close>

definition timeDisjoint :: "BlockRef \<Rightarrow> int \<Rightarrow> int \<Rightarrow> bool" where
  "timeDisjoint b from through = (EndTimestamp b < from \<or> StartTimestamp b > through)"

definition overallMin :: "fpRange list \<Rightarrow> uint64" where
  "overallMin R = (case R of [] \<Rightarrow> 0 | r # _ \<Rightarrow> fst r)"

definition overallMax :: "fpRange list \<Rightarrow> uint64" where
  "overallMax R = (case R of [] \<Rightarrow> 0 | _ # _ \<Rightarrow> snd (last R))"

definition boundDisjoint :: "BlockRef \<Rightarrow> fpRange list \<Rightarrow> bool" where
  "boundDisjoint b R = (MaxFingerprint b < overallMin R \<or> MinFingerprint b > overallMax R)"

text \<open>The block lies strictly between the \<open>i\<close>-th and the \<open>(i+1)\<close>-th range.\<close>

definition inGapAt :: "BlockRef \<Rightarrow> fpRange list \<Rightarrow> nat \<Rightarrow> bool" where
  "inGapAt b R i = (snd (R ! i) < MinFingerprint b \<and> MaxFingerprint b < fst (R ! Suc i))"

definition inSomeGap :: "BlockRef \<Rightarrow> fpRange list \<Rightarrow> bool" where
  "inSomeGap b R = list_ex (inGapAt b R) [0 ..< length R - 1]"



section \<open>Resolving the active blocks\<close>

text \<open>
  \<open>outdatedBlocks\<close> is a \<open>map[string]interface{}\<close> whose values are all \<open>nil\<close>: a map from
  block paths to \<open>unit\<close>. The first pair of nested loops of \<open>findBlocks\<close> fills it from the
  tombstones of every meta.
\<close>

fun markTombstones :: "(string \<rightharpoonup> unit) \<Rightarrow> BlockRef list \<Rightarrow> (string \<rightharpoonup> unit)" where
  "markTombstones outdatedBlocks [] = outdatedBlocks"
| "markTombstones outdatedBlocks (tombstone # rest) =
     markTombstones (outdatedBlocks(BlockPath tombstone \<mapsto> ())) rest"

fun outdatedLoop :: "(string \<rightharpoonup> unit) \<Rightarrow> Meta list \<Rightarrow> (string \<rightharpoonup> unit)" where
  "outdatedLoop outdatedBlocks [] = outdatedBlocks"
| "outdatedLoop outdatedBlocks (meta # metas) =
     outdatedLoop (markTombstones outdatedBlocks (Tombstones meta)) metas"

text \<open>
  \<open>blocksSet\<close> is a \<open>map[string]BlockRef\<close>. It is kept as an association list with distinct
  keys: the assignment \<open>blocksSet[k] = v\<close> is \<open>AList.update k v\<close>, which replaces the value of
  a key that is present and appends a key that is new. The list therefore holds the keys in
  the order in which they were first inserted. The second pair of nested loops:
\<close>

type_synonym blocksMap = "(string \<times> BlockRef) list"

fun addBlocks ::
  "(string \<rightharpoonup> unit) \<Rightarrow> int \<Rightarrow> int \<Rightarrow> fpRange list \<Rightarrow> blocksMap \<Rightarrow> BlockRef list \<Rightarrow> blocksMap"
where
  "addBlocks outdatedBlocks startTimestamp endTimestamp fingerprints blocksSet [] = blocksSet"
| "addBlocks outdatedBlocks startTimestamp endTimestamp fingerprints blocksSet (block # rest) =
     (if outdatedBlocks (BlockPath block) \<noteq> None
      then addBlocks outdatedBlocks startTimestamp endTimestamp fingerprints blocksSet rest
      else if isOutsideRange block startTimestamp endTimestamp fingerprints
      then addBlocks outdatedBlocks startTimestamp endTimestamp fingerprints blocksSet rest
      else addBlocks outdatedBlocks startTimestamp endTimestamp fingerprints
             (AList.update (BlockPath block) block blocksSet) rest)"

fun blocksLoop ::
  "(string \<rightharpoonup> unit) \<Rightarrow> int \<Rightarrow> int \<Rightarrow> fpRange list \<Rightarrow> blocksMap \<Rightarrow> Meta list \<Rightarrow> blocksMap"
where
  "blocksLoop outdatedBlocks startTimestamp endTimestamp fingerprints blocksSet [] = blocksSet"
| "blocksLoop outdatedBlocks startTimestamp endTimestamp fingerprints blocksSet (meta # metas) =
     blocksLoop outdatedBlocks startTimestamp endTimestamp fingerprints
       (addBlocks outdatedBlocks startTimestamp endTimestamp fingerprints blocksSet (Blocks meta))
       metas"

definition blocksSetOf :: "Meta list \<Rightarrow> int \<Rightarrow> int \<Rightarrow> fpRange list \<Rightarrow> blocksMap" where
  "blocksSetOf metas startTimestamp endTimestamp fingerprints =
     blocksLoop (outdatedLoop Map.empty metas) startTimestamp endTimestamp fingerprints [] metas"

text \<open>
  The last loop of \<open>findBlocks\<close> ranges over \<open>blocksSet\<close> and appends every value to the
  result. Go does not specify the order in which \<open>range\<close> visits the entries of a map, so
  that order is an argument of the model: \<open>ord\<close> takes the entries of the map to the
  sequence in which the loop visits them. Whatever the runtime does, it visits every entry
  once: \<open>ord\<close> is \<open>permuting\<close>.
\<close>

type_synonym rangeOrder = "blocksMap \<Rightarrow> blocksMap"

definition permuting :: "rangeOrder \<Rightarrow> bool" where
  "permuting ord = (\<forall>kvs. mset (ord kvs) = mset kvs)"

definition findBlocks ::
  "rangeOrder \<Rightarrow> Meta list \<Rightarrow> int \<Rightarrow> int \<Rightarrow> fpRange list \<Rightarrow> BlockRef list" where
  "findBlocks ord metas startTimestamp endTimestamp fingerprints =
     map snd (ord (blocksSetOf metas startTimestamp endTimestamp fingerprints))"

text \<open>
  What the walk over the metas meets, for use in the statements below: every block of every
  meta in the order of the walk, the paths that occur in some tombstone list, and the
  blocks of the walk that pass both tests of the inner loop (the active blocks).
\<close>

definition walkedBlocks :: "Meta list \<Rightarrow> BlockRef list" where
  "walkedBlocks metas = concat (map Blocks metas)"

definition tombstonedPaths :: "Meta list \<Rightarrow> string list" where
  "tombstonedPaths metas = map BlockPath (concat (map Tombstones metas))"

definition activeWalk :: "Meta list \<Rightarrow> int \<Rightarrow> int \<Rightarrow> fpRange list \<Rightarrow> BlockRef list" where
  "activeWalk metas from through R =
     filter (\<lambda>b. BlockPath b \<notin> set (tombstonedPaths metas) \<and> \<not> isOutsideRange b from through R)
       (walkedBlocks metas)"

text \<open>Inserting a sequence of blocks into the map under their paths, one after the other.\<close>

definition insertAll :: "blocksMap \<Rightarrow> BlockRef list \<Rightarrow> blocksMap" where
  "insertAll kvs bs = foldl (\<lambda>kvs b. AList.update (BlockPath b) b kvs) kvs bs"

definition withPath :: "string \<Rightarrow> BlockRef list \<Rightarrow> BlockRef list" where
  "withPath p bs = filter (\<lambda>b. BlockPath b = p) bs"

text \<open>The invariant of the data model that a block path names one block, for the blocks of
  a sequence: two of them with the same path are the same block, field for field.\<close>

definition uniquePaths :: "BlockRef list \<Rightarrow> bool" where
  "uniquePaths bs = (\<forall>b\<in>set bs. \<forall>b'\<in>set bs. BlockPath b = BlockPath b' \<longrightarrow> b = b')"


section \<open>Errors\<close>

text \<open>
  A Go \<open>error\<close> value that is not \<open>nil\<close>: either an error made elsewhere (\<open>New\<close>, with its
  text) or the result of \<open>fmt.Errorf(msg + "%w", err)\<close>, which keeps the operand \<open>err\<close> (itself
  possibly \<open>nil\<close>) for \<open>errors.Unwrap\<close>. A value of Go type \<open>error\<close> is an \<open>error option\<close>,
  \<open>None\<close> being \<open>nil\<close>.
\<close>

datatype error = New string | Errorf string "error option"

fun Unwrap :: "error \<Rightarrow> error option" where
  "Unwrap (New msg) = None"
| "Unwrap (Errorf msg err) = err"




section \<open>\<open>getActiveBlockRefs\<close> and \<open>GetBlockRefs\<close>\<close>

text \<open>
  The argument of \<open>Client.GetMetas\<close>: \<open>MetaSearchParams{TenantID, MinFingerprint,
  MaxFingerprint, StartTimestamp, EndTimestamp}\<close>, the fields in this order. The client is
  outside the code under study and is an argument of the model: a function from the search
  parameters to the metas or to the error it returns.
\<close>

datatype MetaSearchParams = MetaSearchParams string uint64 uint64 int int

type_synonym Client = "MetaSearchParams \<Rightarrow> error + Meta list"

text \<open>The comparison closure that \<open>getActiveBlockRefs\<close> passes to the sort.\<close>

definition cmpMinFingerprint :: "BlockRef \<Rightarrow> BlockRef \<Rightarrow> int" where
  "cmpMinFingerprint a b =
     (if MinFingerprint a < MinFingerprint b then - 1
      else if MinFingerprint a > MinFingerprint b then 1
      else 0)"

text \<open>
  \<open>slices.SortStableFunc\<close> belongs to the library \<open>golang.org/x/exp/slices\<close>: it sorts by the
  comparison function and keeps the original order of the elements that compare equal. It
  is modelled by insertion sort, which does exactly that: an element is put in front of
  the first element of the sorted rest that is not smaller.
\<close>

fun insertStable :: "('a \<Rightarrow> 'a \<Rightarrow> int) \<Rightarrow> 'a \<Rightarrow> 'a list \<Rightarrow> 'a list" where
  "insertStable cmp x [] = [x]"
| "insertStable cmp x (y # ys) =
     (if cmp y x < 0 then y # insertStable cmp x ys else x # y # ys)"

fun SortStableFunc :: "('a \<Rightarrow> 'a \<Rightarrow> int) \<Rightarrow> 'a list \<Rightarrow> 'a list" where
  "SortStableFunc cmp [] = []"
| "SortStableFunc cmp (x # xs) = insertStable cmp x (SortStableFunc cmp xs)"

definition MaxUint64 :: uint64 where
  "MaxUint64 = 18446744073709551615"

definition getActiveBlockRefs ::
  "rangeOrder \<Rightarrow> Client \<Rightarrow> string \<Rightarrow> int \<Rightarrow> int \<Rightarrow> fpRange list \<Rightarrow> error + BlockRef list" where
  "getActiveBlockRefs ord client tenantID from through fingerprints =
     (case getFirstLast zeroFpRange fingerprints of (minFpRange, maxFpRange) \<Rightarrow>
        (case client (MetaSearchParams tenantID (minFp minFpRange) (maxFp maxFpRange)
                        from through) of
           Inl err \<Rightarrow> Inl (Errorf ''error fetching meta.json files: '' (Some err))
         | Inr metas \<Rightarrow>
             Inr (SortStableFunc cmpMinFingerprint
                    (findBlocks ord metas from through fingerprints))))"



section \<open>\<open>Fetch\<close> and \<open>runCallback\<close>\<close>

text \<open>
  Modelled from the spec: the declaration of \<open>blockWithQuerier\<close> is not among the sources.
  The spec describes it as the pairing of a fetched block with an opened, queryable handle;
  the code reads the fields of the embedded \<open>BlockRef\<close> and passes the handle
  \<open>closableBlockQuerier\<close> to the callback and closes it. The handle is a number here.
\<close>

record blockWithQuerier = BlockRef +
  closableBlockQuerier :: nat

text \<open>
  The callback is code of the caller: it may keep state of its own (\<open>'s\<close>), it returns an
  error or \<open>nil\<close>, or it panics.
\<close>

datatype cbResult = CbReturns "error option" | CbPanics

type_synonym 's ForEachBlockCallback = "'s \<Rightarrow> nat \<Rightarrow> uint64 \<Rightarrow> uint64 \<Rightarrow> cbResult \<times> 's"

text \<open>What \<open>Fetch\<close> does to the world, in order: it runs the callback on a handle with a
  fingerprint range, and it closes a handle.\<close>

datatype action = CallbackRun nat uint64 uint64 | BlockClosed nat

text \<open>
  \<open>runCallback\<close> registers the closing of the block with \<open>defer\<close> and then calls the
  callback. A deferred function runs when the function leaves, by \<open>return\<close> or by a panic
  that passes through; the result of \<open>b.Close()\<close> is discarded. The model returns what
  \<open>runCallback\<close> returns (or that it panics), the callback's new state, and the actions in
  the order in which they happen.
\<close>

definition runCallback ::
  "'s ForEachBlockCallback \<Rightarrow> blockWithQuerier \<Rightarrow> 's \<Rightarrow> cbResult \<times> 's \<times> action list" where
  "runCallback callback block st =
     (case callback st (closableBlockQuerier block) (MinFingerprint block) (MaxFingerprint block)
      of (r, st') \<Rightarrow>
        (let body =
           (case r of
              CbPanics \<Rightarrow> CbPanics
            | CbReturns (Some err) \<Rightarrow>
                CbReturns (Some (Errorf
                  (''error running callback function for block '' @ BlockPath block @ '' err: '')
                  (Some err)))
            | CbReturns None \<Rightarrow> CbReturns None);
           deferred = [BlockClosed (closableBlockQuerier block)]
         in (body, st',
             CallbackRun (closableBlockQuerier block) (MinFingerprint block) (MaxFingerprint block)
               # deferred)))"

text \<open>
  The loop of \<open>Fetch\<close> waits in a \<open>select\<close> on three sources. Which case fires in which
  iteration is decided by the context, the downloader and the scheduler, all outside the
  code: the sequence of the cases that fire, with the value each one receives, is an
  argument of the model. \<open>ctx.Err()\<close> is not \<open>nil\<close> once \<open>ctx.Done()\<close> is closed; the error
  channel has element type \<open>error\<close> and may carry \<open>nil\<close>.
\<close>

datatype selected =
  CtxDone error
| FromErrCh "error option"
| FromResCh blockWithQuerier

text \<open>
  A call of \<open>Fetch\<close> returns an error or \<open>nil\<close>, or it is unwound by a panic of the
  callback, or it waits in the \<open>select\<close> for ever because no case fires any more
  (\<open>Blocked\<close>: the sequence of fired cases is exhausted). Together with the outcome the model
  reports the actions performed, the callback's state, and the fired cases that the loop
  did not consume.
\<close>

datatype outcome = Returns "error option" | Panics | Blocked

record 's fetchResult =
  outcome :: outcome
  trace :: "action list"
  cbState :: 's
  pending :: "selected list"

text \<open>
  The loop, one equation for each case of the \<open>select\<close>. \<open>remaining\<close> is a Go \<open>int\<close> that
  starts at \<open>len(blocks)\<close> and is only decremented and compared with 0; it is an unbounded
  integer here, since a wrap-around would take \<open>2^63\<close> decrements. The calls of the logger
  have no part in the model.
\<close>

fun fetchLoop ::
  "'s ForEachBlockCallback \<Rightarrow> int \<Rightarrow> selected list \<Rightarrow> 's \<Rightarrow> action list \<Rightarrow> 's fetchResult" where
  "fetchLoop callback remaining [] st tr =
     \<lparr>outcome = Blocked, trace = tr, cbState = st, pending = []\<rparr>"
| "fetchLoop callback remaining (CtxDone ctxErr # rest) st tr =
     \<lparr>outcome = Returns (Some (Errorf ''failed to fetch blocks: '' (Some ctxErr))),
      trace = tr, cbState = st, pending = rest\<rparr>"
| "fetchLoop callback remaining (FromErrCh err # rest) st tr =
     \<lparr>outcome = Returns (Some (Errorf ''failed to fetch blocks: '' err)),
      trace = tr, cbState = st, pending = rest\<rparr>"
| "fetchLoop callback remaining (FromResCh result # rest) st tr =
     (case runCallback callback result st of
        (CbPanics, st', acts) \<Rightarrow>
          \<lparr>outcome = Panics, trace = tr @ acts, cbState = st', pending = rest\<rparr>
      | (CbReturns (Some err), st', acts) \<Rightarrow>
          \<lparr>outcome = Returns (Some err), trace = tr @ acts, cbState = st', pending = rest\<rparr>
      | (CbReturns None, st', acts) \<Rightarrow>
          (if remaining - 1 = 0
           then \<lparr>outcome = Returns None, trace = tr @ acts, cbState = st', pending = rest\<rparr>
           else fetchLoop callback (remaining - 1) rest st' (tr @ acts)))"

text \<open>
  \<open>fetchErr\<close> is the error result of \<open>s.blockDownloader.fetch\<close>, \<open>selects\<close> the sequence of
  cases that fire in the loop. The downloader is outside the code under study. The
  deferred \<open>cancelFunc\<close> cancels the context handed to the downloader when \<open>Fetch\<close> is left;
  it acts on the downloader only.
\<close>

definition Fetch ::
  "error option \<Rightarrow> selected list \<Rightarrow> BlockRef list \<Rightarrow> 's ForEachBlockCallback \<Rightarrow> 's
     \<Rightarrow> 's fetchResult" where
  "Fetch fetchErr selects blocks callback st =
     (case fetchErr of
        Some err \<Rightarrow> \<lparr>outcome = Returns (Some err), trace = [], cbState = st, pending = selects\<rparr>
      | None \<Rightarrow> fetchLoop callback (int (length blocks)) selects st [])"

text \<open>The callback called for a block in a state: its result and its new state.\<close>

definition callbackOn ::
  "blockWithQuerier \<Rightarrow> 's ForEachBlockCallback \<Rightarrow> 's \<Rightarrow> cbResult \<times> 's" where
  "callbackOn block callback st =
     callback st (closableBlockQuerier block) (MinFingerprint block) (MaxFingerprint block)"

text \<open>The callback's state after it has been called for the blocks of a sequence, in that
  order.\<close>

fun stateAfter :: "'s ForEachBlockCallback \<Rightarrow> 's \<Rightarrow> blockWithQuerier list \<Rightarrow> 's" where
  "stateAfter callback st [] = st"
| "stateAfter callback st (block # rest) =
     stateAfter callback (snd (callbackOn block callback st)) rest"

text \<open>The fired cases that a call has consumed: all but the pending ones.\<close>

definition consumedBy :: "'s fetchResult \<Rightarrow> selected list \<Rightarrow> selected list" where
  "consumedBy r selects = take (length selects - length (pending r)) selects"

text \<open>For the statements below: the actions that one received block gives rise to, the
  blocks among a sequence of fired cases, and a callback that returns \<open>nil\<close> on every block
  of a sequence, run in that order from a given state.\<close>

definition blockActions :: "blockWithQuerier \<Rightarrow> action list" where
  "blockActions block =
     [CallbackRun (closableBlockQuerier block) (MinFingerprint block) (MaxFingerprint block),
      BlockClosed (closableBlockQuerier block)]"

fun receivedBlocks :: "selected list \<Rightarrow> blockWithQuerier list" where
  "receivedBlocks [] = []"
| "receivedBlocks (FromResCh block # rest) = block # receivedBlocks rest"
| "receivedBlocks (_ # rest) = receivedBlocks rest"

fun isCallbackRun :: "action \<Rightarrow> bool" where
  "isCallbackRun (CallbackRun q lo hi) = True"
| "isCallbackRun (BlockClosed q) = False"

fun succeedsOnAll :: "'s ForEachBlockCallback \<Rightarrow> 's \<Rightarrow> blockWithQuerier list \<Rightarrow> bool" where
  "succeedsOnAll callback st [] = True"
| "succeedsOnAll callback st (block # rest) =
     (case callback st (closableBlockQuerier block) (MinFingerprint block) (MaxFingerprint block)
      of (CbReturns None, st') \<Rightarrow> succeedsOnAll callback st' rest
       | _ \<Rightarrow> False)"


section \<open>Sample inputs\<close>

text \<open>Concrete blocks and metas on which the definitions are evaluated below. The map is
  visited in insertion order by \<open>mapOrder\<close> and in the reverse order by \<open>rev\<close>.\<close>

definition blockP1 :: BlockRef where
  "blockP1 = \<lparr>BlockPath = ''P'', MinFingerprint = 0, MaxFingerprint = 10,
     StartTimestamp = 0, EndTimestamp = 10\<rparr>"

definition blockQ :: BlockRef where
  "blockQ = \<lparr>BlockPath = ''Q'', MinFingerprint = 0, MaxFingerprint = 10,
     StartTimestamp = 0, EndTimestamp = 10\<rparr>"

definition blockR :: BlockRef where
  "blockR = \<lparr>BlockPath = ''R'', MinFingerprint = 11, MaxFingerprint = 19,
     StartTimestamp = 0, EndTimestamp = 10\<rparr>"

definition metaOf :: "BlockRef list \<Rightarrow> BlockRef list \<Rightarrow> Meta" where
  "metaOf bs ts = \<lparr>Blocks = bs, Tombstones = ts\<rparr>"

definition mapOrder :: rangeOrder where
  "mapOrder kvs = kvs"

text \<open>Sample handles and callbacks: one that counts its calls and returns \<open>nil\<close>, one that
  returns an error, one that panics, one that returns \<open>nil\<close> when first called and an error
  afterwards.\<close>

definition handleP :: blockWithQuerier where
  "handleP = \<lparr>BlockPath = ''P'', MinFingerprint = 0, MaxFingerprint = 10,
     StartTimestamp = 0, EndTimestamp = 10, closableBlockQuerier = 7\<rparr>"

definition handleQ :: blockWithQuerier where
  "handleQ = \<lparr>BlockPath = ''Q'', MinFingerprint = 0, MaxFingerprint = 10,
     StartTimestamp = 0, EndTimestamp = 10, closableBlockQuerier = 8\<rparr>"

definition countingCallback :: "nat ForEachBlockCallback" where
  "countingCallback st q lo hi = (CbReturns None, st + 1)"

definition failingCallback :: "nat ForEachBlockCallback" where
  "failingCallback st q lo hi = (CbReturns (Some (New ''boom'')), st + 1)"

definition panickingCallback :: "nat ForEachBlockCallback" where
  "panickingCallback st q lo hi = (CbPanics, st + 1)"

definition failsOnSecondCallback :: "nat ForEachBlockCallback" where
  "failsOnSecondCallback st q lo hi =
     (if st = 0 then CbReturns None else CbReturns (Some (New ''second'')), st + 1)"


section \<open>The range filter: proofs\<close>

lemma getFirstLast_Nil: "getFirstLast z [] = (z, z)"
  by (simp add: getFirstLast_def)

lemma getFirstLast_Cons: "getFirstLast z (x # xs) = (x, last (x # xs))"
  by (simp add: getFirstLast_def last_conv_nth)

lemma getFirstLast_bounds:
  "minFp (fst (getFirstLast zeroFpRange R)) = overallMin R"
  "maxFp (snd (getFirstLast zeroFpRange R)) = overallMax R"
  by (cases R; simp add: getFirstLast_Nil getFirstLast_Cons zeroFpRange_def
        overallMin_def overallMax_def minFp_def maxFp_def)+

text \<open>The scan from a cursor: either the cursor and the head form the gap, or two
  neighbours further on do.\<close>

lemma gapScan_iff:
  "gapScan b prev R \<longleftrightarrow>
     (R \<noteq> [] \<and> maxFp prev < MinFingerprint b \<and> MaxFingerprint b < minFp (hd R))
     \<or> (\<exists>i. Suc i < length R \<and> inGapAt b R i)"
proof (induction R arbitrary: prev)
  case Nil
  show ?case by simp
next
  case (Cons fpr rest)
  have shift: "(\<exists>i. Suc i < length (fpr # rest) \<and> inGapAt b (fpr # rest) i) \<longleftrightarrow>
      (rest \<noteq> [] \<and> maxFp fpr < MinFingerprint b \<and> MaxFingerprint b < minFp (hd rest))
      \<or> (\<exists>i. Suc i < length rest \<and> inGapAt b rest i)" (is "?L \<longleftrightarrow> ?A \<or> ?B")
  proof
    assume ?L
    then obtain i where i: "Suc i < length (fpr # rest)" "inGapAt b (fpr # rest) i"
      by blast
    show "?A \<or> ?B"
    proof (cases i)
      case 0
      with i have "rest \<noteq> []" by auto
      with i 0 show ?thesis
        by (auto simp: inGapAt_def minFp_def maxFp_def hd_conv_nth)
    next
      case (Suc j)
      with i have "Suc j < length rest" "inGapAt b rest j"
        by (auto simp: inGapAt_def)
      then show ?thesis by blast
    qed
  next
    assume "?A \<or> ?B"
    then show ?L
    proof
      assume a: ?A
      then have "Suc 0 < length (fpr # rest)" by (cases rest) auto
      moreover from a have "inGapAt b (fpr # rest) 0"
        by (auto simp: inGapAt_def minFp_def maxFp_def hd_conv_nth)
      ultimately show ?L by blast
    next
      assume ?B
      then obtain j where "Suc j < length rest" "inGapAt b rest j" by blast
      then have "Suc (Suc j) < length (fpr # rest)" "inGapAt b (fpr # rest) (Suc j)"
        by (auto simp: inGapAt_def)
      then show ?L by blast
    qed
  qed
  show ?case
    using Cons.IH [of fpr] shift by auto
qed

lemma inSomeGap_iff: "inSomeGap b R \<longleftrightarrow> (\<exists>i. Suc i < length R \<and> inGapAt b R i)"
  by (auto simp: inSomeGap_def list_ex_iff less_diff_conv)

text \<open>The first iteration, with the cursor at \<open>[0,0]\<close>, never fires once the bound check
  has passed: it asks for the block's maximum to lie below the first range's minimum.\<close>

lemma isOutsideRange_iff:
  "isOutsideRange b from through R \<longleftrightarrow>
     timeDisjoint b from through \<or> boundDisjoint b R \<or> inSomeGap b R"
proof (cases "timeDisjoint b from through")
  case True
  then show ?thesis by (simp add: isOutsideRange_def timeDisjoint_def)
next
  case notime: False
  show ?thesis
  proof (cases "boundDisjoint b R")
    case True
    with notime show ?thesis
      using getFirstLast_bounds [of R]
      by (auto simp: isOutsideRange_def timeDisjoint_def boundDisjoint_def split: prod.splits)
  next
    case nobound: False
    have first: "\<not> (R \<noteq> [] \<and> maxFp (0, 0) < MinFingerprint b
        \<and> MaxFingerprint b < minFp (hd R))"
      using nobound by (cases R) (auto simp: boundDisjoint_def overallMin_def minFp_def)
    have "isOutsideRange b from through R = gapScan b (0, 0) R"
      using notime nobound getFirstLast_bounds [of R]
      by (auto simp: isOutsideRange_def timeDisjoint_def boundDisjoint_def split: prod.splits)
    also have "\<dots> = inSomeGap b R"
      using first unfolding gapScan_iff [of b "(0, 0)" R] inSomeGap_iff by blast
    finally show ?thesis using notime nobound by simp
  qed
qed


section \<open>Resolving the active blocks: proofs\<close>


lemma markTombstones_None:
  "markTombstones m ts p = None \<longleftrightarrow> m p = None \<and> p \<notin> BlockPath ` set ts"
proof (induction ts arbitrary: m)
  case Nil
  show ?case by simp
next
  case (Cons t ts)
  show ?case by (auto simp add: Cons.IH)
qed

lemma outdatedLoop_None:
  "outdatedLoop m metas p = None \<longleftrightarrow> m p = None \<and> p \<notin> set (tombstonedPaths metas)"
proof (induction metas arbitrary: m)
  case Nil
  show ?case by (simp add: tombstonedPaths_def)
next
  case (Cons meta metas)
  have "set (tombstonedPaths (meta # metas)) =
      BlockPath ` set (Tombstones meta) \<union> set (tombstonedPaths metas)"
    by (simp add: tombstonedPaths_def)
  then show ?case by (auto simp add: Cons.IH markTombstones_None)
qed

lemma addBlocks_insertAll:
  "addBlocks od s e fps kvs bs =
     insertAll kvs (filter (\<lambda>b. od (BlockPath b) = None \<and> \<not> isOutsideRange b s e fps) bs)"
  by (induction bs arbitrary: kvs) (auto simp: insertAll_def)

lemma insertAll_append: "insertAll kvs (xs @ ys) = insertAll (insertAll kvs xs) ys"
  by (simp add: insertAll_def)

lemma blocksLoop_insertAll:
  "blocksLoop od s e fps kvs metas =
     insertAll kvs (filter (\<lambda>b. od (BlockPath b) = None \<and> \<not> isOutsideRange b s e fps)
       (walkedBlocks metas))"
  by (induction metas arbitrary: kvs)
     (auto simp: walkedBlocks_def addBlocks_insertAll insertAll_append insertAll_def)

lemma blocksSetOf_activeWalk:
  "blocksSetOf metas s e fps = insertAll [] (activeWalk metas s e fps)"
proof -
  have "\<And>p. (outdatedLoop Map.empty metas p = None) = (p \<notin> set (tombstonedPaths metas))"
    by (simp add: outdatedLoop_None)
  then show ?thesis
    by (simp add: blocksSetOf_def blocksLoop_insertAll activeWalk_def)
qed

lemma distinct_insertAll:
  "distinct (map fst kvs) \<Longrightarrow> distinct (map fst (insertAll kvs bs))"
  by (induction bs arbitrary: kvs) (auto simp: insertAll_def distinct_update)

lemma map_of_insertAll:
  "map_of (insertAll kvs bs) p =
     (if withPath p bs = [] then map_of kvs p else Some (last (withPath p bs)))"
  by (induction bs arbitrary: kvs) (auto simp: insertAll_def withPath_def update_conv')

lemma findBlocks_entries:
  "(k, v) \<in> set (blocksSetOf metas s e fps) \<longleftrightarrow>
     withPath k (activeWalk metas s e fps) \<noteq> [] \<and> v = last (withPath k (activeWalk metas s e fps))"
proof -
  have d: "distinct (map fst (blocksSetOf metas s e fps))"
    by (simp add: blocksSetOf_activeWalk distinct_insertAll)
  have "(k, v) \<in> set (blocksSetOf metas s e fps) \<longleftrightarrow> map_of (blocksSetOf metas s e fps) k = Some v"
    using d by simp
  then show ?thesis
    by (auto simp: blocksSetOf_activeWalk map_of_insertAll)
qed


lemma last_withPath:
  assumes "withPath k A \<noteq> []"
  shows "last (withPath k A) \<in> set A" "BlockPath (last (withPath k A)) = k"
proof -
  have "last (withPath k A) \<in> set (withPath k A)" using assms by simp
  then show "last (withPath k A) \<in> set A" "BlockPath (last (withPath k A)) = k"
    by (auto simp: withPath_def)
qed

lemma entry_key: "(k, v) \<in> set (blocksSetOf metas s e fps) \<Longrightarrow> k = BlockPath v"
  by (simp add: findBlocks_entries last_withPath)

lemma distinct_blocksSetOf: "distinct (map fst (blocksSetOf metas s e fps))"
  by (simp add: blocksSetOf_activeWalk distinct_insertAll)

lemma permuting_set: "permuting ord \<Longrightarrow> set (ord kvs) = set kvs"
  by (metis permuting_def mset_eq_setD)

lemma permuting_keys:
  assumes "permuting ord"
  shows "distinct (map fst (ord kvs)) \<longleftrightarrow> distinct (map fst kvs)"
proof -
  have "mset (map fst (ord kvs)) = mset (map fst kvs)"
    using assms by (metis permuting_def mset_map)
  then show ?thesis by (rule mset_eq_imp_distinct_iff)
qed

lemma findBlocks_iff:
  assumes "permuting ord"
  shows "r \<in> set (findBlocks ord metas s e fps) \<longleftrightarrow>
     r \<in> set (activeWalk metas s e fps)
     \<and> r = last (withPath (BlockPath r) (activeWalk metas s e fps))"
    (is "?L \<longleftrightarrow> ?R")
proof
  assume ?L
  then obtain k where k: "(k, r) \<in> set (blocksSetOf metas s e fps)"
    using permuting_set [OF assms] by (auto simp: findBlocks_def)
  then have "k = BlockPath r" by (rule entry_key)
  with k show ?R using last_withPath(1) [of "BlockPath r" "activeWalk metas s e fps"]
    by (simp add: findBlocks_entries)
next
  assume r: ?R
  then have "withPath (BlockPath r) (activeWalk metas s e fps) \<noteq> []"
    by (auto simp: withPath_def filter_empty_conv)
  with r have "(BlockPath r, r) \<in> set (blocksSetOf metas s e fps)"
    by (simp add: findBlocks_entries)
  then show ?L
    using permuting_set [OF assms] by (force simp: findBlocks_def)
qed

lemma findBlocks_paths:
  assumes "permuting ord"
  shows "map BlockPath (findBlocks ord metas s e fps) = map fst (ord (blocksSetOf metas s e fps))"
proof -
  have "\<And>kv. kv \<in> set (ord (blocksSetOf metas s e fps)) \<Longrightarrow> BlockPath (snd kv) = fst kv"
    using permuting_set [OF assms] entry_key by (metis prod.collapse)
  then show ?thesis by (simp add: findBlocks_def)
qed

lemma findBlocks_distinct:
  "permuting ord \<Longrightarrow> distinct (map BlockPath (findBlocks ord metas s e fps))"
  by (simp add: findBlocks_paths permuting_keys distinct_blocksSetOf)

lemma activeWalk_iff:
  "b \<in> set (activeWalk metas s e fps) \<longleftrightarrow>
     (\<exists>meta\<in>set metas. b \<in> set (Blocks meta))
     \<and> (\<forall>meta\<in>set metas. \<forall>t\<in>set (Tombstones meta). BlockPath t \<noteq> BlockPath b)
     \<and> \<not> isOutsideRange b s e fps"
  by (simp add: activeWalk_def walkedBlocks_def tombstonedPaths_def image_iff) metis

lemma insertAll_snoc:
  "insertAll kvs (xs @ [b]) = AList.update (BlockPath b) b (insertAll kvs xs)"
  by (simp add: insertAll_def)

lemma uniquePaths_activeWalk:
  "uniquePaths (walkedBlocks metas) \<Longrightarrow> uniquePaths (activeWalk metas from through R)"
  by (simp add: uniquePaths_def activeWalk_def)

lemma insertStable_insort:
  "insertStable cmpMinFingerprint x ys = insort_key MinFingerprint x ys"
  by (induction ys) (auto simp: cmpMinFingerprint_def)

lemma SortStableFunc_sort_key:
  "SortStableFunc cmpMinFingerprint xs = sort_key MinFingerprint xs"
  by (induction xs) (auto simp: insertStable_insort)


section \<open>\<open>Fetch\<close>: proofs\<close>

lemma runCallback_actions: "snd (snd (runCallback cb b st)) = blockActions b"
  by (simp add: runCallback_def blockActions_def Let_def split: prod.splits)

lemma runCallback_state: "fst (snd (runCallback cb b st)) = snd (callbackOn b cb st)"
  by (simp add: runCallback_def callbackOn_def Let_def split: prod.splits)

lemma runCallback_result:
  "fst (runCallback cb b st) =
     (case fst (callbackOn b cb st) of
        CbPanics \<Rightarrow> CbPanics
      | CbReturns None \<Rightarrow> CbReturns None
      | CbReturns (Some err) \<Rightarrow>
          CbReturns (Some (Errorf
            (''error running callback function for block '' @ BlockPath b @ '' err: '')
            (Some err))))"
  by (simp add: runCallback_def callbackOn_def Let_def split: prod.splits cbResult.splits option.splits)

lemma runCallback_eq:
  "runCallback cb b st =
     (case fst (callbackOn b cb st) of
        CbPanics \<Rightarrow> CbPanics
      | CbReturns None \<Rightarrow> CbReturns None
      | CbReturns (Some err) \<Rightarrow>
          CbReturns (Some (Errorf
            (''error running callback function for block '' @ BlockPath b @ '' err: '')
            (Some err))),
      snd (callbackOn b cb st), blockActions b)"
  using runCallback_actions [of cb b st] runCallback_state [of cb b st]
    runCallback_result [of cb b st]
  by (metis prod.collapse)

lemma fetchLoop_FromResCh:
  "fetchLoop cb n (FromResCh b # rest) st tr =
     (case fst (callbackOn b cb st) of
        CbPanics \<Rightarrow>
          \<lparr>outcome = Panics, trace = tr @ blockActions b, cbState = snd (callbackOn b cb st),
           pending = rest\<rparr>
      | CbReturns (Some err) \<Rightarrow>
          \<lparr>outcome = Returns (Some (Errorf
              (''error running callback function for block '' @ BlockPath b @ '' err: '')
              (Some err))),
           trace = tr @ blockActions b, cbState = snd (callbackOn b cb st), pending = rest\<rparr>
      | CbReturns None \<Rightarrow>
          (if n = 1
           then \<lparr>outcome = Returns None, trace = tr @ blockActions b,
                 cbState = snd (callbackOn b cb st), pending = rest\<rparr>
           else fetchLoop cb (n - 1) rest (snd (callbackOn b cb st)) (tr @ blockActions b)))"
  by (simp add: runCallback_eq split: cbResult.splits option.splits)

lemma fetchLoop_consumed:
  "\<exists>pre. evs = pre @ pending (fetchLoop cb n evs st tr)
     \<and> trace (fetchLoop cb n evs st tr) = tr @ concat (map blockActions (receivedBlocks pre))"
proof (induction evs arbitrary: n st tr)
  case Nil
  show ?case by simp
next
  case (Cons ev evs)
  show ?case
  proof (cases ev)
    case (CtxDone e)
    then show ?thesis by (auto intro: exI [of _ "[ev]"])
  next
    case (FromErrCh e)
    then show ?thesis by (auto intro: exI [of _ "[ev]"])
  next
    case (FromResCh b)
    show ?thesis
    proof (cases "fst (callbackOn b cb st) = CbReturns None \<and> n \<noteq> 1")
      case True
      from Cons.IH [of "n - 1" "snd (callbackOn b cb st)" "tr @ blockActions b"]
      obtain pre where pre:
        "evs = pre @ pending (fetchLoop cb (n - 1) evs (snd (callbackOn b cb st)) (tr @ blockActions b))"
        "trace (fetchLoop cb (n - 1) evs (snd (callbackOn b cb st)) (tr @ blockActions b))
           = (tr @ blockActions b) @ concat (map blockActions (receivedBlocks pre))"
        by blast
      have eq: "fetchLoop cb n (ev # evs) st tr =
          fetchLoop cb (n - 1) evs (snd (callbackOn b cb st)) (tr @ blockActions b)"
        using True FromResCh by (simp add: fetchLoop_FromResCh del: fetchLoop.simps)
      show ?thesis
        unfolding eq using pre FromResCh
        by (intro exI [of _ "ev # pre"]) simp
    next
      case False
      then show ?thesis using FromResCh
        by (intro exI [of _ "[ev]"])
           (auto simp: fetchLoop_FromResCh simp del: fetchLoop.simps
              split: cbResult.splits option.splits)
    qed
  qed
qed



lemma fetchLoop_all_succeed:
  "succeedsOnAll cb st rs \<Longrightarrow> rs \<noteq> [] \<Longrightarrow> n = int (length rs) \<Longrightarrow>
     outcome (fetchLoop cb n (map FromResCh rs @ post) st tr) = Returns None
     \<and> trace (fetchLoop cb n (map FromResCh rs @ post) st tr)
         = tr @ concat (map blockActions rs)
     \<and> pending (fetchLoop cb n (map FromResCh rs @ post) st tr) = post"
proof (induction rs arbitrary: n st tr)
  case Nil
  then show ?case by simp
next
  case (Cons b rs)
  from Cons.prems(1) have ok: "fst (callbackOn b cb st) = CbReturns None"
    and rest: "succeedsOnAll cb (snd (callbackOn b cb st)) rs"
    by (auto simp: callbackOn_def split: prod.splits cbResult.splits option.splits)
  show ?case
  proof (cases "rs = []")
    case True
    with ok Cons.prems(3) show ?thesis
      by (simp add: fetchLoop_FromResCh del: fetchLoop.simps)
  next
    case False
    with Cons.prems(3) have n: "n \<noteq> 1" "n - 1 = int (length rs)" by auto
    have eq: "fetchLoop cb n (map FromResCh (b # rs) @ post) st tr =
        fetchLoop cb (n - 1) (map FromResCh rs @ post) (snd (callbackOn b cb st)) (tr @ blockActions b)"
      using ok n by (simp add: fetchLoop_FromResCh del: fetchLoop.simps)
    from Cons.IH [OF rest False n(2), of "tr @ blockActions b"] show ?thesis
      unfolding eq by simp
  qed
qed


lemma succeedsOnAll_Cons:
  "succeedsOnAll cb st (b # rs) \<longleftrightarrow>
     fst (callbackOn b cb st) = CbReturns None \<and> succeedsOnAll cb (snd (callbackOn b cb st)) rs"
  by (simp add: callbackOn_def split: prod.splits cbResult.splits option.splits)

lemma fetchLoop_successes:
  "succeedsOnAll cb st rs \<Longrightarrow> n \<le> 0 \<or> int (length rs) < n \<Longrightarrow>
     fetchLoop cb n (map FromResCh rs @ evs) st tr =
       fetchLoop cb (n - int (length rs)) evs (stateAfter cb st rs)
         (tr @ concat (map blockActions rs))"
proof (induction rs arbitrary: n st tr)
  case Nil
  show ?case by simp
next
  case (Cons b rs)
  from Cons.prems(1) have ok: "fst (callbackOn b cb st) = CbReturns None"
    and rest: "succeedsOnAll cb (snd (callbackOn b cb st)) rs"
    by (simp_all add: succeedsOnAll_Cons del: succeedsOnAll.simps)
  from Cons.prems(2) have n1: "n \<noteq> 1" and n': "n - 1 \<le> 0 \<or> int (length rs) < n - 1"
    by auto
  have eq: "fetchLoop cb n (map FromResCh (b # rs) @ evs) st tr =
      fetchLoop cb (n - 1) (map FromResCh rs @ evs) (snd (callbackOn b cb st))
        (tr @ blockActions b)"
    using ok n1 by (simp add: fetchLoop_FromResCh del: fetchLoop.simps)
  show ?case
    unfolding eq Cons.IH [OF rest n', of "tr @ blockActions b"]
    by (simp add: algebra_simps)
qed

lemma trace_prefix:
  "take (length tr) (trace (fetchLoop cb n evs st tr)) = tr"
  using fetchLoop_consumed [of evs cb n st tr] by auto





lemmas fetch_simps = Fetch_def runCallback_def handleP_def handleQ_def blockP1_def blockQ_def
  countingCallback_def failingCallback_def panickingCallback_def failsOnSecondCallback_def
  blockActions_def

lemma Fetch_consumed:
  "selects = consumedBy (Fetch fetchErr selects blocks callback st) selects
               @ pending (Fetch fetchErr selects blocks callback st)
   \<and> trace (Fetch fetchErr selects blocks callback st)
       = concat (map blockActions
           (receivedBlocks (consumedBy (Fetch fetchErr selects blocks callback st) selects)))"
proof (cases fetchErr)
  case (Some err)
  then show ?thesis by (simp add: Fetch_def consumedBy_def)
next
  case None
  let ?r = "fetchLoop callback (int (length blocks)) selects st []"
  from fetchLoop_consumed [of selects callback "int (length blocks)" st "[]"]
  obtain pre where pre: "selects = pre @ pending ?r"
    "trace ?r = concat (map blockActions (receivedBlocks pre))"
    by auto
  from pre(1) have "length pre = length selects - length (pending ?r)"
    by (metis add_diff_cancel_right' length_append)
  with pre(1) have "consumedBy ?r selects = pre"
    by (metis append_eq_conv_conj consumedBy_def)
  with pre None show ?thesis by (simp add: Fetch_def)
qed

lemma count_blockActions:
  "length (filter isCallbackRun (concat (map blockActions xs))) = length xs"
  by (induction xs) (simp_all add: blockActions_def)


lemma permuting_mapOrder: "permuting mapOrder"
  by (simp add: permuting_def mapOrder_def)

lemma permuting_rev: "permuting rev"
  by (simp add: permuting_def)

lemmas run_simps = findBlocks_def blocksSetOf_def isOutsideRange_def getFirstLast_def
  zeroFpRange_def minFp_def maxFp_def MaxUint64_def blockP1_def blockQ_def
  blockR_def metaOf_def mapOrder_def

lemma set_SortStableFunc:
  "set (SortStableFunc cmpMinFingerprint xs) = set xs"
  by (simp add: SortStableFunc_sort_key)


section \<open>The range filter: results\<close>

text \<open>
  C1: \<open>isOutsideRange\<close> holds of a block exactly when its time interval misses
  \<open>[from, through]\<close>, or its fingerprint interval misses the overall bound of the range list
  (first minimum, last maximum), or its fingerprint interval lies strictly inside the gap
  between two consecutive ranges. The first step of the scan, from the cursor \<open>[0,0]\<close>, adds
  nothing to these. This holds for every range list, ascending or not. With the ranges
  \<open>[[0,10],[20,30]]\<close> a block with fingerprints \<open>[11,19]\<close> is outside, and a block with
  fingerprints \<open>[5,25]\<close> is outside only if its time interval misses the window.
\<close>

theorem isOutsideRange_characterisation:
  "(isOutsideRange b from through R \<longleftrightarrow>
      timeDisjoint b from through \<or> boundDisjoint b R \<or> inSomeGap b R)
   \<and> isOutsideRange (b\<lparr>MinFingerprint := 11, MaxFingerprint := 19\<rparr>) from through
       [(0, 10), (20, 30)]
   \<and> (isOutsideRange (b\<lparr>MinFingerprint := 5, MaxFingerprint := 25\<rparr>) from through
       [(0, 10), (20, 30)] \<longleftrightarrow> timeDisjoint b from through)"
  by (simp add: isOutsideRange_iff)
     (simp add: timeDisjoint_def boundDisjoint_def inSomeGap_def inGapAt_def
        overallMin_def overallMax_def)

text \<open>
  C9: for the empty range list \<open>getFirstLast\<close> gives the zero range \<open>[0,0]\<close> twice, so
  \<open>isOutsideRange\<close> holds of every block whose \<open>MinFingerprint\<close> is above 0, whatever its
  time interval, and a block that is not outside has \<open>MinFingerprint\<close> 0. Hence every block
  that \<open>findBlocks\<close> or \<open>getActiveBlockRefs\<close> returns for the empty range list has
  \<open>MinFingerprint\<close> 0.
\<close>

theorem empty_ranges_keep_only_min_zero:
  "getFirstLast zeroFpRange [] = ((0, 0), (0, 0))
   \<and> (isOutsideRange b from through [] \<longleftrightarrow> timeDisjoint b from through \<or> 0 < MinFingerprint b)
   \<and> (permuting ord \<longrightarrow> (\<forall>r\<in>set (findBlocks ord metas from through []). MinFingerprint r = 0))
   \<and> (permuting ord \<and> getActiveBlockRefs ord client tenantID from through [] = Inr refs
        \<longrightarrow> (\<forall>r\<in>set refs. MinFingerprint r = 0))"
proof -
  have zero: "getFirstLast zeroFpRange [] = ((0, 0), (0, 0))"
    by (simp add: getFirstLast_def zeroFpRange_def)
  have out: "isOutsideRange c from through [] \<longleftrightarrow>
      timeDisjoint c from through \<or> 0 < MinFingerprint c" for c
    by (simp add: isOutsideRange_iff)
       (simp add: boundDisjoint_def inSomeGap_def overallMin_def overallMax_def)
  have found: "MinFingerprint r = 0"
    if "permuting ord" "r \<in> set (findBlocks ord ms from through [])" for r ms
  proof -
    from that have "\<not> isOutsideRange r from through []"
      by (simp add: findBlocks_iff activeWalk_iff)
    then have "\<not> 0 < MinFingerprint r" by (simp add: out)
    then show ?thesis by (simp add: word_greater_zero_iff)
  qed
  have active: "MinFingerprint r = 0"
    if "permuting ord" "getActiveBlockRefs ord client tenantID from through [] = Inr refs"
       "r \<in> set refs" for r
  proof -
    from that(2) obtain ms where
      "refs = SortStableFunc cmpMinFingerprint (findBlocks ord ms from through [])"
      by (auto simp: getActiveBlockRefs_def split: prod.splits sum.splits)
    with that(3) have "r \<in> set (findBlocks ord ms from through [])"
      by (simp add: set_SortStableFunc)
    with that(1) show ?thesis by (rule found)
  qed
  from zero out found active show ?thesis by blast
qed

theorem empty_ranges_keep_only_min_zero_witness:
  "permuting mapOrder
   \<and> getActiveBlockRefs mapOrder (\<lambda>params. Inr [metaOf [blockP1, blockR] []]) ''tenant'' 0 10 []
       = Inr [blockP1]
   \<and> findBlocks mapOrder [metaOf [blockP1, blockR] []] 0 10 [] = [blockP1]
   \<and> MinFingerprint blockP1 = 0 \<and> 0 < MinFingerprint blockR"
  using permuting_mapOrder
    empty_ranges_keep_only_min_zero [of blockR 0 10 mapOrder "[metaOf [blockP1, blockR] []]"
      "\<lambda>params. Inr [metaOf [blockP1, blockR] []]" "''tenant''" "[blockP1]"]
  by (simp add: getActiveBlockRefs_def run_simps)


section \<open>Resolving the active blocks: results\<close>

text \<open>
  C2: whatever the order in which the map is visited, a block path that occurs among the
  tombstones of any meta of the input is the path of no block in the result of
  \<open>findBlocks\<close>, also when a meta lists a block with that path as active. In particular,
  when the first of two metas lists the single block \<open>x\<close>, the second lists no block and
  has a tombstone with the path of \<open>x\<close>, the result is empty.
\<close>

theorem findBlocks_excludes_tombstoned:
  assumes "permuting ord"
  shows "(\<forall>meta\<in>set metas. \<forall>t\<in>set (Tombstones meta).
            BlockPath t \<notin> BlockPath ` set (findBlocks ord metas from through R))
     \<and> (Blocks m1 = [x] \<and> Blocks m2 = [] \<and> t' \<in> set (Tombstones m2) \<and> BlockPath t' = BlockPath x
          \<longrightarrow> findBlocks ord [m1, m2] from through R = [])"
proof -
  have excl: "BlockPath t \<notin> BlockPath ` set (findBlocks ord ms from through R)"
    if "meta \<in> set ms" "t \<in> set (Tombstones meta)" for ms meta t
  proof
    assume "BlockPath t \<in> BlockPath ` set (findBlocks ord ms from through R)"
    then obtain r where r: "r \<in> set (findBlocks ord ms from through R)" "BlockPath r = BlockPath t"
      by auto
    then have "r \<in> set (activeWalk ms from through R)"
      using findBlocks_iff [OF assms] by blast
    with that r(2) show False
      unfolding activeWalk_iff by metis
  qed
  have scen: "findBlocks ord [m1, m2] from through R = []"
    if h: "Blocks m1 = [x]" "Blocks m2 = []" "t' \<in> set (Tombstones m2)" "BlockPath t' = BlockPath x"
  proof (rule ccontr)
    assume "findBlocks ord [m1, m2] from through R \<noteq> []"
    then obtain r where r: "r \<in> set (findBlocks ord [m1, m2] from through R)"
      using hd_in_set by blast
    then have "r \<in> set (activeWalk [m1, m2] from through R)"
      using findBlocks_iff [OF assms] by blast
    then have "r = x" using h by (auto simp: activeWalk_iff)
    moreover have "BlockPath t' \<notin> BlockPath ` set (findBlocks ord [m1, m2] from through R)"
      using excl [of m2 "[m1, m2]" t'] h by simp
    ultimately show False using r h by auto
  qed
  from excl scen show ?thesis by blast
qed

theorem findBlocks_excludes_tombstoned_witness:
  "permuting mapOrder
   \<and> blockP1 \<in> set (Tombstones (metaOf [] [blockP1]))
   \<and> BlockPath blockP1 \<notin> BlockPath `
        set (findBlocks mapOrder [metaOf [blockP1] [], metaOf [] [blockP1]] 0 10 [(0, MaxUint64)])
   \<and> findBlocks mapOrder [metaOf [blockP1] [], metaOf [] [blockP1]] 0 10 [(0, MaxUint64)] = []"
  using permuting_mapOrder
    findBlocks_excludes_tombstoned [OF permuting_mapOrder,
      of "[metaOf [blockP1] [], metaOf [] [blockP1]]" 0 10 "[(0, MaxUint64)]"
         "metaOf [blockP1] []" blockP1 "metaOf [] [blockP1]" blockP1]
  by (simp add: metaOf_def)

text \<open>
  C10: whatever the order in which the map is visited, every block in the result of
  \<open>findBlocks\<close> is an element of the \<open>Blocks\<close> of some meta of the input (the very record,
  with all its fields), its path is the path of no tombstone of any meta of the input, and
  \<open>isOutsideRange\<close> is false for it with the given window and ranges.
\<close>

theorem findBlocks_returns_only_active_input_blocks:
  assumes "permuting ord" and "r \<in> set (findBlocks ord metas from through R)"
  shows "(\<exists>meta\<in>set metas. r \<in> set (Blocks meta))
     \<and> (\<forall>meta\<in>set metas. \<forall>t\<in>set (Tombstones meta). BlockPath t \<noteq> BlockPath r)
     \<and> \<not> isOutsideRange r from through R"
proof -
  from assms have "r \<in> set (activeWalk metas from through R)"
    by (simp add: findBlocks_iff)
  then show ?thesis using activeWalk_iff [of r metas "from" through R] by blast
qed

theorem findBlocks_returns_only_active_input_blocks_witness:
  "permuting rev
   \<and> blockQ \<in> set (findBlocks rev [metaOf [blockP1, blockQ, blockR] [blockR]] 0 10 [(0, 10), (20, 30)])
   \<and> blockQ \<in> set (Blocks (metaOf [blockP1, blockQ, blockR] [blockR]))
   \<and> BlockPath blockR \<noteq> BlockPath blockQ
   \<and> \<not> isOutsideRange blockQ 0 10 [(0, 10), (20, 30)]"
proof -
  have m: "blockQ \<in> set (findBlocks rev [metaOf [blockP1, blockQ, blockR] [blockR]] 0 10
      [(0, 10), (20, 30)])"
    by (simp add: run_simps)
  show ?thesis
    using m permuting_rev
      findBlocks_returns_only_active_input_blocks [OF permuting_rev m]
    by (simp add: metaOf_def blockQ_def blockR_def)
qed

text \<open>
  C6: whatever the order in which the map is visited, the result of \<open>findBlocks\<close> holds at
  most one block per path, and one for the path of every active block (a block of the walk
  that is not tombstoned and not outside the range). The map is filled by inserting the
  active blocks under their paths in the order of the walk. In the data model a block path
  names one block: active blocks with the same path are the same block, field for field.
  Then the insertion of a block whose path has been inserted before leaves the map as it
  is, and the entry kept for a path is the first active block with that path in the order
  of the walk.
\<close>

theorem findBlocks_one_entry_per_path_first_kept:
  assumes "permuting ord"
  shows "distinct (map BlockPath (findBlocks ord metas from through R))
     \<and> (\<forall>b\<in>set (activeWalk metas from through R).
           \<exists>r\<in>set (findBlocks ord metas from through R). BlockPath r = BlockPath b)
     \<and> blocksSetOf metas from through R = insertAll [] (activeWalk metas from through R)
     \<and> (uniquePaths (activeWalk metas from through R) \<longrightarrow>
          (\<forall>xs b ys. activeWalk metas from through R = xs @ b # ys
                \<and> BlockPath b \<in> BlockPath ` set xs
              \<longrightarrow> insertAll [] (xs @ [b]) = insertAll [] xs)
        \<and> (\<forall>r\<in>set (findBlocks ord metas from through R).
              r = hd (withPath (BlockPath r) (activeWalk metas from through R))))"
proof -
  let ?A = "activeWalk metas from through R"
  let ?F = "findBlocks ord metas from through R"
  have d: "distinct (map BlockPath ?F)"
    using assms by (rule findBlocks_distinct)
  have cover: "\<exists>r\<in>set ?F. BlockPath r = BlockPath b" if "b \<in> set ?A" for b
  proof -
    from that have ne: "withPath (BlockPath b) ?A \<noteq> []"
      by (auto simp: withPath_def filter_empty_conv)
    let ?r = "last (withPath (BlockPath b) ?A)"
    from last_withPath [OF ne] have "?r \<in> set ?A" "BlockPath ?r = BlockPath b" by auto
    then have "?r \<in> set ?F" using findBlocks_iff [OF assms, of ?r metas "from" through R]
      by simp
    with \<open>BlockPath ?r = BlockPath b\<close> show ?thesis by blast
  qed
  have noop: "insertAll [] (xs @ [b]) = insertAll [] xs"
    if u: "uniquePaths ?A" and split: "?A = xs @ b # ys"
      and seen: "BlockPath b \<in> BlockPath ` set xs" for xs b ys
  proof -
    from seen have ne: "withPath (BlockPath b) xs \<noteq> []"
      by (auto simp: withPath_def filter_empty_conv)
    let ?l = "last (withPath (BlockPath b) xs)"
    from last_withPath [OF ne] have "?l \<in> set xs" "BlockPath ?l = BlockPath b" by auto
    with split have "?l \<in> set ?A" "b \<in> set ?A" "BlockPath ?l = BlockPath b" by auto
    with u have "?l = b" unfolding uniquePaths_def by blast
    with ne have "map_of (insertAll [] xs) (BlockPath b) = Some b"
      by (simp add: map_of_insertAll)
    then show ?thesis
      unfolding insertAll_snoc by (rule update_triv)
  qed
  have first: "r = hd (withPath (BlockPath r) ?A)"
    if u: "uniquePaths ?A" and r: "r \<in> set ?F" for r
  proof -
    from r have ra: "r \<in> set ?A"
      using findBlocks_iff [OF assms, of r metas "from" through R] by simp
    then have ne: "withPath (BlockPath r) ?A \<noteq> []"
      by (auto simp: withPath_def filter_empty_conv)
    then have "hd (withPath (BlockPath r) ?A) \<in> set (withPath (BlockPath r) ?A)"
      by simp
    then have "hd (withPath (BlockPath r) ?A) \<in> set ?A"
      "BlockPath (hd (withPath (BlockPath r) ?A)) = BlockPath r"
      by (auto simp: withPath_def)
    with u ra show ?thesis unfolding uniquePaths_def by metis
  qed
  have b: "blocksSetOf metas from through R = insertAll [] ?A"
    by (rule blocksSetOf_activeWalk)
  from d cover b noop first show ?thesis by blast
qed

theorem findBlocks_one_entry_per_path_first_kept_witness:
  "permuting rev
   \<and> uniquePaths (activeWalk [metaOf [blockP1, blockQ] [], metaOf [blockP1] []] 0 10
        [(0, MaxUint64)])
   \<and> activeWalk [metaOf [blockP1, blockQ] [], metaOf [blockP1] []] 0 10 [(0, MaxUint64)]
       = [blockP1, blockQ] @ blockP1 # []
   \<and> BlockPath blockP1 \<in> BlockPath ` set [blockP1, blockQ]
   \<and> insertAll [] ([blockP1, blockQ] @ [blockP1]) = insertAll [] [blockP1, blockQ]
   \<and> findBlocks rev [metaOf [blockP1, blockQ] [], metaOf [blockP1] []] 0 10 [(0, MaxUint64)]
       = [blockQ, blockP1]
   \<and> blockP1 = hd (withPath (BlockPath blockP1) [blockP1, blockQ, blockP1])"
proof -
  let ?M = "[metaOf [blockP1, blockQ] [], metaOf [blockP1] []]"
  have f: "findBlocks rev ?M 0 10 [(0, MaxUint64)] = [blockQ, blockP1]"
    by (simp add: run_simps)
  have a: "activeWalk ?M 0 10 [(0, MaxUint64)] = [blockP1, blockQ] @ blockP1 # []"
    by (simp add: run_simps activeWalk_def walkedBlocks_def tombstonedPaths_def)
  have u: "uniquePaths (activeWalk ?M 0 10 [(0, MaxUint64)])"
    unfolding a by (simp add: uniquePaths_def blockP1_def blockQ_def)
  have s: "BlockPath blockP1 \<in> BlockPath ` set [blockP1, blockQ]" by simp
  note c = findBlocks_one_entry_per_path_first_kept [OF permuting_rev, of ?M 0 10 "[(0, MaxUint64)]",
      THEN conjunct2, THEN conjunct2, THEN conjunct2, THEN mp, OF u]
  from c [THEN conjunct1] a s
  have n: "insertAll [] ([blockP1, blockQ] @ [blockP1]) = insertAll [] [blockP1, blockQ]"
    by blast
  from c [THEN conjunct2]
  have "\<forall>r\<in>set [blockQ, blockP1]. r = hd (withPath (BlockPath r) [blockP1, blockQ, blockP1])"
    unfolding f a by simp
  then have h: "blockP1 = hd (withPath (BlockPath blockP1) [blockP1, blockQ, blockP1])"
    by simp
  show ?thesis
    by (intro conjI) (rule permuting_rev u a s n f h)+
qed

text \<open>
  C7, amended: the list returned by \<open>getActiveBlockRefs\<close> is the list returned by
  \<open>findBlocks\<close> for the metas of the client, sorted ascending by \<open>MinFingerprint\<close> with no
  other key; the sort is stable, so blocks with equal \<open>MinFingerprint\<close> keep the relative
  order they have in the result of \<open>findBlocks\<close>. That order is the order in which Go
  visits the map \<open>blocksSet\<close>, which is unspecified; it need not be the order of discovery.
\<close>

theorem getActiveBlockRefs_sorted_stable:
  assumes "getActiveBlockRefs ord client tenantID from through R = Inr refs"
  shows "\<exists>metas. client (MetaSearchParams tenantID (overallMin R) (overallMax R) from through)
            = Inr metas
     \<and> refs = SortStableFunc cmpMinFingerprint (findBlocks ord metas from through R)
     \<and> sorted (map MinFingerprint refs)
     \<and> (\<forall>k. filter (\<lambda>b. MinFingerprint b = k) refs
            = filter (\<lambda>b. MinFingerprint b = k) (findBlocks ord metas from through R))
     \<and> mset refs = mset (findBlocks ord metas from through R)"
proof -
  obtain lo hi where fl: "getFirstLast zeroFpRange R = (lo, hi)"
    by (cases "getFirstLast zeroFpRange R")
  then have p: "minFp lo = overallMin R" "maxFp hi = overallMax R"
    using getFirstLast_bounds [of R] by simp_all
  from assms fl p obtain metas where
    m: "client (MetaSearchParams tenantID (overallMin R) (overallMax R) from through) = Inr metas"
    and r: "refs = SortStableFunc cmpMinFingerprint (findBlocks ord metas from through R)"
    by (auto simp: getActiveBlockRefs_def split: sum.splits)
  from r have s: "refs = sort_key MinFingerprint (findBlocks ord metas from through R)"
    by (simp add: SortStableFunc_sort_key)
  have "sorted (map MinFingerprint refs)" by (simp add: s)
  moreover have "filter (\<lambda>b. MinFingerprint b = k) refs
      = filter (\<lambda>b. MinFingerprint b = k) (findBlocks ord metas from through R)" for k
    unfolding s by (rule sort_key_stable)
  moreover have "mset refs = mset (findBlocks ord metas from through R)" by (simp add: s)
  ultimately show ?thesis using m r by blast
qed

theorem getActiveBlockRefs_sorted_stable_witness:
  "getActiveBlockRefs rev (\<lambda>params. Inr [metaOf [blockP1, blockR, blockQ] []]) ''tenant'' 0 10
       [(0, MaxUint64)] = Inr [blockQ, blockP1, blockR]
   \<and> findBlocks rev [metaOf [blockP1, blockR, blockQ] []] 0 10 [(0, MaxUint64)]
       = [blockQ, blockR, blockP1]
   \<and> sorted (map MinFingerprint [blockQ, blockP1, blockR])
   \<and> filter (\<lambda>b. MinFingerprint b = 0) [blockQ, blockP1, blockR] = [blockQ, blockP1]"
proof -
  have g: "getActiveBlockRefs rev (\<lambda>params. Inr [metaOf [blockP1, blockR, blockQ] []]) ''tenant''
      0 10 [(0, MaxUint64)] = Inr [blockQ, blockP1, blockR]"
    by (simp add: getActiveBlockRefs_def cmpMinFingerprint_def run_simps)
  have f: "findBlocks rev [metaOf [blockP1, blockR, blockQ] []] 0 10 [(0, MaxUint64)]
       = [blockQ, blockR, blockP1]"
    by (simp add: run_simps)
  from getActiveBlockRefs_sorted_stable [OF g] obtain metas where
    m: "Inr [metaOf [blockP1, blockR, blockQ] []] = (Inr metas :: error + Meta list)"
    and s: "sorted (map MinFingerprint [blockQ, blockP1, blockR])"
    and st: "\<forall>k. filter (\<lambda>b. MinFingerprint b = k) [blockQ, blockP1, blockR]
       = filter (\<lambda>b. MinFingerprint b = k) (findBlocks rev metas 0 10 [(0, MaxUint64)])"
    by blast
  from m have "metas = [metaOf [blockP1, blockR, blockQ] []]" by simp
  with st f have "filter (\<lambda>b. MinFingerprint b = 0) [blockQ, blockP1, blockR]
       = filter (\<lambda>b. MinFingerprint b = 0) [blockQ, blockR, blockP1]"
    by simp
  also have "\<dots> = [blockQ, blockP1]"
    by (simp add: blockP1_def blockQ_def blockR_def)
  finally have k: "filter (\<lambda>b. MinFingerprint b = 0) [blockQ, blockP1, blockR]
       = [blockQ, blockP1]" .
  show ?thesis
    by (intro conjI) (rule g f s k)+
qed

text \<open>
  The claim C7 as it is written fails in the order of the ties: with two active blocks of
  equal \<open>MinFingerprint\<close>, discovered as \<open>P\<close> then \<open>Q\<close>, a run that visits the map in the
  other order returns \<open>Q\<close> before \<open>P\<close>.
\<close>

theorem getActiveBlockRefs_discovery_order_counterexample:
  "permuting rev
   \<and> getActiveBlockRefs rev (\<lambda>params. Inr [metaOf [blockP1, blockQ] []]) ''tenant'' 0 10
       [(0, MaxUint64)] = Inr [blockQ, blockP1]
   \<and> activeWalk [metaOf [blockP1, blockQ] []] 0 10 [(0, MaxUint64)] = [blockP1, blockQ]
   \<and> map fst (blocksSetOf [metaOf [blockP1, blockQ] []] 0 10 [(0, MaxUint64)]) = [''P'', ''Q'']
   \<and> MinFingerprint blockP1 = MinFingerprint blockQ"
  using permuting_rev
  by (simp add: getActiveBlockRefs_def cmpMinFingerprint_def run_simps
        activeWalk_def walkedBlocks_def tombstonedPaths_def)


section \<open>\<open>Fetch\<close>: results\<close>

text \<open>
  C5: take a call of \<open>Fetch\<close> in which the loop has received the blocks \<open>rs\<close>, the callback
  has returned \<open>nil\<close> on each, and the loop is still running (fewer than \<open>len(blocks)\<close> have
  been received, or no block was requested), and let the next case that fires be the
  delivery of \<open>block\<close>. Then the trace goes on with the callback on the handle of \<open>block\<close>
  followed at once by the closing of that handle, whatever the callback does and before
  anything that fires later is looked at. When the callback returns an error, \<open>Fetch\<close>
  returns it, wrapped, and when the callback panics, \<open>Fetch\<close> is unwound: in both cases the
  closing of the handle is the last action of the trace and what fires later stays pending.
  \<open>runCallback\<close> gives rise to these two actions whatever the callback's result, and the trace
  of every call holds nothing else: it is made of the pairs callback, close of the received
  blocks that the call has consumed, in the order of reception, so every handle is closed
  once.
\<close>

theorem callback_then_close_for_every_received_block:
  "(succeedsOnAll callback st rs \<and> (blocks = [] \<or> length rs < length blocks) \<longrightarrow>
      take (length (concat (map blockActions (rs @ [block]))))
           (trace (Fetch None (map FromResCh rs @ FromResCh block # post) blocks callback st))
        = concat (map blockActions (rs @ [block]))
    \<and> (fst (callbackOn block callback (stateAfter callback st rs)) = CbReturns (Some err) \<longrightarrow>
         outcome (Fetch None (map FromResCh rs @ FromResCh block # post) blocks callback st)
           = Returns (Some (Errorf (''error running callback function for block ''
               @ BlockPath block @ '' err: '') (Some err)))
       \<and> trace (Fetch None (map FromResCh rs @ FromResCh block # post) blocks callback st)
           = concat (map blockActions (rs @ [block]))
       \<and> pending (Fetch None (map FromResCh rs @ FromResCh block # post) blocks callback st)
           = post)
    \<and> (fst (callbackOn block callback (stateAfter callback st rs)) = CbPanics \<longrightarrow>
         outcome (Fetch None (map FromResCh rs @ FromResCh block # post) blocks callback st)
           = Panics
       \<and> trace (Fetch None (map FromResCh rs @ FromResCh block # post) blocks callback st)
           = concat (map blockActions (rs @ [block]))
       \<and> pending (Fetch None (map FromResCh rs @ FromResCh block # post) blocks callback st)
           = post))
   \<and> snd (snd (runCallback callback block st0)) = blockActions block
   \<and> selects = consumedBy (Fetch fetchErr selects blocks callback st) selects
               @ pending (Fetch fetchErr selects blocks callback st)
   \<and> trace (Fetch fetchErr selects blocks callback st)
       = concat (map blockActions
           (receivedBlocks (consumedBy (Fetch fetchErr selects blocks callback st) selects)))"
proof -
  let ?F = "Fetch None (map FromResCh rs @ FromResCh block # post) blocks callback st"
  let ?T = "concat (map blockActions rs)"
  let ?s = "stateAfter callback st rs"
  have reach: "take (length (concat (map blockActions (rs @ [block])))) (trace ?F)
        = concat (map blockActions (rs @ [block]))
    \<and> (fst (callbackOn block callback ?s) = CbReturns (Some err) \<longrightarrow>
         outcome ?F = Returns (Some (Errorf (''error running callback function for block ''
               @ BlockPath block @ '' err: '') (Some err)))
       \<and> trace ?F = concat (map blockActions (rs @ [block]))
       \<and> pending ?F = post)
    \<and> (fst (callbackOn block callback ?s) = CbPanics \<longrightarrow>
         outcome ?F = Panics
       \<and> trace ?F = concat (map blockActions (rs @ [block]))
       \<and> pending ?F = post)"
    if ok: "succeedsOnAll callback st rs" and n: "blocks = [] \<or> length rs < length blocks"
  proof -
    from n have n': "int (length blocks) \<le> 0 \<or> int (length rs) < int (length blocks)"
      by auto
    have F: "?F = fetchLoop callback (int (length blocks) - int (length rs))
        (FromResCh block # post) ?s ?T"
      using fetchLoop_successes [OF ok n', of "FromResCh block # post" "[]"]
      by (simp add: Fetch_def)
    have pre: "take (length (?T @ blockActions block)) (trace ?F) = ?T @ blockActions block"
    proof (cases "fst (callbackOn block callback ?s) = CbReturns None
        \<and> int (length blocks) - int (length rs) \<noteq> 1")
      case True
      then have "?F = fetchLoop callback (int (length blocks) - int (length rs) - 1) post
          (snd (callbackOn block callback ?s)) (?T @ blockActions block)"
        unfolding F by (simp add: fetchLoop_FromResCh del: fetchLoop.simps)
      then show ?thesis by (simp only: trace_prefix)
    next
      case False
      then have "trace ?F = ?T @ blockActions block"
        unfolding F
        by (auto simp: fetchLoop_FromResCh simp del: fetchLoop.simps
              split: cbResult.splits option.splits)
      then show ?thesis by simp
    qed
    have e: "outcome ?F = Returns (Some (Errorf (''error running callback function for block ''
               @ BlockPath block @ '' err: '') (Some err)))
       \<and> trace ?F = concat (map blockActions (rs @ [block])) \<and> pending ?F = post"
      if "fst (callbackOn block callback ?s) = CbReturns (Some err)"
      unfolding F using that by (simp add: fetchLoop_FromResCh del: fetchLoop.simps)
    have p: "outcome ?F = Panics
       \<and> trace ?F = concat (map blockActions (rs @ [block])) \<and> pending ?F = post"
      if "fst (callbackOn block callback ?s) = CbPanics"
      unfolding F using that by (simp add: fetchLoop_FromResCh del: fetchLoop.simps)
    from pre e p show ?thesis by simp
  qed
  from reach Fetch_consumed [of selects fetchErr blocks callback st]
    runCallback_actions [of callback block st0]
  show ?thesis by blast
qed

theorem callback_then_close_for_every_received_block_witness:
  "succeedsOnAll countingCallback 0 [handleP]
   \<and> length [handleP] < length [blockP1, blockQ, blockR]
   \<and> take (length (concat (map blockActions ([handleP] @ [handleQ]))))
        (trace (Fetch None (map FromResCh [handleP] @ FromResCh handleQ # [])
           [blockP1, blockQ, blockR] countingCallback 0))
       = concat (map blockActions ([handleP] @ [handleQ]))
   \<and> trace (Fetch None [FromResCh handleP, FromResCh handleQ] [blockP1, blockQ, blockR]
        countingCallback 0)
       = [CallbackRun 7 0 10, BlockClosed 7, CallbackRun 8 0 10, BlockClosed 8]
   \<and> fst (callbackOn handleP failingCallback 0) = CbReturns (Some (New ''boom''))
   \<and> trace (Fetch None [FromResCh handleP, FromResCh handleQ] [blockP1, blockQ] failingCallback 0)
       = [CallbackRun 7 0 10, BlockClosed 7]
   \<and> fst (callbackOn handleP panickingCallback 0) = CbPanics
   \<and> outcome (Fetch None [FromResCh handleP, FromResCh handleQ] [blockP1, blockQ]
        panickingCallback 0) = Panics
   \<and> trace (Fetch None [FromResCh handleP, FromResCh handleQ] [blockP1, blockQ]
        panickingCallback 0) = [CallbackRun 7 0 10, BlockClosed 7]"
proof -
  have s: "succeedsOnAll countingCallback 0 [handleP]"
    by (simp add: fetch_simps)
  have l: "length [handleP] < length [blockP1, blockQ, blockR]" by simp
  have f: "fst (callbackOn handleP failingCallback 0) = CbReturns (Some (New ''boom''))"
    by (simp add: callbackOn_def fetch_simps)
  have p: "fst (callbackOn handleP panickingCallback 0) = CbPanics"
    by (simp add: callbackOn_def fetch_simps)
  have t: "trace (Fetch None [FromResCh handleP, FromResCh handleQ] [blockP1, blockQ, blockR]
        countingCallback 0)
       = [CallbackRun 7 0 10, BlockClosed 7, CallbackRun 8 0 10, BlockClosed 8]"
    by (simp add: fetch_simps)
  have ha: "succeedsOnAll countingCallback 0 [handleP]
      \<and> ([blockP1, blockQ, blockR] = [] \<or> length [handleP] < length [blockP1, blockQ, blockR])"
    using s by simp
  have hb: "succeedsOnAll failingCallback 0 []
      \<and> ([blockP1, blockQ] = [] \<or> length ([] :: blockWithQuerier list) < length [blockP1, blockQ])"
    by simp
  have hc: "succeedsOnAll panickingCallback 0 []
      \<and> ([blockP1, blockQ] = [] \<or> length ([] :: blockWithQuerier list) < length [blockP1, blockQ])"
    by simp
  have fb: "fst (callbackOn handleP failingCallback (stateAfter failingCallback 0 []))
      = CbReturns (Some (New ''boom''))"
    using f by simp
  have pc: "fst (callbackOn handleP panickingCallback (stateAfter panickingCallback 0 []))
      = CbPanics"
    using p by simp
  note a = callback_then_close_for_every_received_block [of countingCallback 0 "[handleP]" "[blockP1, blockQ, blockR]" handleQ "[]"
      "New ''boom''" 0 "[]" None, THEN conjunct1, THEN mp, OF ha, THEN conjunct1]
  note b = callback_then_close_for_every_received_block [of failingCallback 0 "[]" "[blockP1, blockQ]" handleP "[FromResCh handleQ]"
      "New ''boom''" 0 "[]" None, THEN conjunct1, THEN mp, OF hb, THEN conjunct2,
      THEN conjunct1, THEN mp, OF fb]
  note c = callback_then_close_for_every_received_block [of panickingCallback 0 "[]" "[blockP1, blockQ]" handleP "[FromResCh handleQ]"
      "New ''boom''" 0 "[]" None, THEN conjunct1, THEN mp, OF hc, THEN conjunct2,
      THEN conjunct2, THEN mp, OF pc]
  from b have tb: "trace (Fetch None [FromResCh handleP, FromResCh handleQ] [blockP1, blockQ]
      failingCallback 0) = [CallbackRun 7 0 10, BlockClosed 7]"
    by (simp add: blockActions_def handleP_def)
  from c have oc: "outcome (Fetch None [FromResCh handleP, FromResCh handleQ]
      [blockP1, blockQ] panickingCallback 0) = Panics"
    and tc: "trace (Fetch None [FromResCh handleP, FromResCh handleQ] [blockP1, blockQ]
      panickingCallback 0) = [CallbackRun 7 0 10, BlockClosed 7]"
    by (simp_all add: blockActions_def handleP_def)
  show ?thesis
    by (intro conjI) (rule s l a t f tb p oc tc)+
qed

text \<open>
  C3, amended: for \<open>N \<ge> 1\<close> requested blocks, when the downloader's \<open>fetch\<close> returns no
  error, the loop receives exactly \<open>N\<close> blocks from the result channel and nothing from the
  other two sources, and the callback returns \<open>nil\<close> on each of them, \<open>Fetch\<close> runs the
  callback exactly \<open>N\<close> times, once for each received block and in the order of reception,
  and returns \<open>nil\<close>.
\<close>

theorem Fetch_all_delivered_all_succeed:
  assumes "blocks \<noteq> []" and "length rs = length blocks" and "succeedsOnAll callback st rs"
  shows "outcome (Fetch None (map FromResCh rs) blocks callback st) = Returns None
     \<and> trace (Fetch None (map FromResCh rs) blocks callback st) = concat (map blockActions rs)
     \<and> length (filter isCallbackRun (trace (Fetch None (map FromResCh rs) blocks callback st)))
         = length blocks
     \<and> pending (Fetch None (map FromResCh rs) blocks callback st) = []"
proof -
  from assms have ne: "rs \<noteq> []" and n: "int (length blocks) = int (length rs)" by auto
  from fetchLoop_all_succeed [OF assms(3) ne n, of "[]" "[]"]
  have *: "outcome (Fetch None (map FromResCh rs) blocks callback st) = Returns None"
    "trace (Fetch None (map FromResCh rs) blocks callback st) = concat (map blockActions rs)"
    "pending (Fetch None (map FromResCh rs) blocks callback st) = []"
    by (simp_all add: Fetch_def)
  with assms(2) show ?thesis by (simp add: count_blockActions)
qed

theorem Fetch_all_delivered_all_succeed_witness:
  "[blockP1, blockQ] \<noteq> [] \<and> length [handleP, handleQ] = length [blockP1, blockQ]
   \<and> succeedsOnAll countingCallback 0 [handleP, handleQ]
   \<and> outcome (Fetch None [FromResCh handleP, FromResCh handleQ] [blockP1, blockQ]
        countingCallback 0) = Returns None
   \<and> trace (Fetch None [FromResCh handleP, FromResCh handleQ] [blockP1, blockQ]
        countingCallback 0)
       = [CallbackRun 7 0 10, BlockClosed 7, CallbackRun 8 0 10, BlockClosed 8]"
proof -
  have s: "succeedsOnAll countingCallback 0 [handleP, handleQ]"
    by (simp add: fetch_simps)
  have l: "length [handleP, handleQ] = length [blockP1, blockQ]" by simp
  have n: "[blockP1, blockQ] \<noteq> []" by simp
  show ?thesis
    using s Fetch_all_delivered_all_succeed [OF n l s]
    by (simp add: fetch_simps)
qed

text \<open>
  The claim C3 as it is written fails: one block requested and delivered, no error
  delivery and no cancellation, and a callback that returns an error make \<open>Fetch\<close> return
  that error, wrapped; and with no block requested and nothing delivered the loop waits in
  its \<open>select\<close> and does not return.
\<close>

theorem Fetch_all_delivered_counterexample:
  "outcome (Fetch None [FromResCh handleP] [blockP1] failingCallback 0)
     = Returns (Some (Errorf ''error running callback function for block P err: ''
         (Some (New ''boom''))))
   \<and> trace (Fetch None [FromResCh handleP] [blockP1] failingCallback 0)
     = [CallbackRun 7 0 10, BlockClosed 7]
   \<and> outcome (Fetch None [] [] countingCallback 0) = Blocked"
  by (simp add: fetch_simps)







end
